theory Spec2Isabelle
  imports Main
begin

section \<open>fuzzyfiler: the path scanner and the sorting engine\<close>

text \<open>
  The program is one Python module, \<^verbatim>\<open>fuzzyfiler.py\<close>. Its functions
  \<^verbatim>\<open>gather_files\<close>, \<^verbatim>\<open>gather_directories\<close>, \<^verbatim>\<open>sort_files\<close> and
  \<^verbatim>\<open>main\<close> are embedded below under their own names. What the module reaches
  through libraries (the file system, the mpv player, the fzf prompt) is modelled at the
  interface the module uses, and every such model says so.
\<close>

subsection \<open>Errors\<close>

text \<open>The Python exceptions that the embedded code can raise.\<close>

datatype error =
    NotADirectoryError
  | FileNotFoundError
  | IsADirectoryError
  | SameFileError
  | ValueError
  | IndexError

subsection \<open>Paths\<close>

text \<open>
  \<^verbatim>\<open>os.path.join(a, b)\<close> of posixpath with two arguments: an absolute \<open>b\<close>
  replaces \<open>a\<close>; an empty \<open>a\<close> or one ending in a slash is extended without a
  separator.
\<close>

definition os_path_join :: "string \<Rightarrow> string \<Rightarrow> string" where
  "os_path_join a b =
     (if b \<noteq> [] \<and> hd b = CHR ''/'' then b
      else if a = [] \<or> last a = CHR ''/'' then a @ b
      else a @ ''/'' @ b)"

definition os_path_basename :: "string \<Rightarrow> string" where
  "os_path_basename p = rev (takeWhile (\<lambda>c. c \<noteq> CHR ''/'') (rev p))"

text \<open>
  The second component of \<^verbatim>\<open>os.path.splitext(p)\<close>: the suffix of the last path
  component that starts at its last dot, provided some character other than a dot comes
  before that dot in the component; the empty string otherwise.
\<close>

definition splitext_ext :: "string \<Rightarrow> string" where
  "splitext_ext p =
     (let base = os_path_basename p;
          tail = rev (takeWhile (\<lambda>c. c \<noteq> CHR ''.'') (rev base));
          stem = take (length base - length tail - 1) base
      in if CHR ''.'' \<in> set base \<and> (\<exists>c \<in> set stem. c \<noteq> CHR ''.'')
         then CHR ''.'' # tail else [])"

subsection \<open>The file system as the scanner sees it\<close>

text \<open>
  What a path resolves to: a regular file, a directory with its named entries, something
  that exists but is neither (\<open>Other\<close>), or nothing (\<open>Missing\<close>, also a dangling
  link listed in its parent). \<^verbatim>\<open>os.listdir\<close> of a directory gives the entry
  names, and raises on anything else; \<^verbatim>\<open>os.path.isdir\<close> and
  \<^verbatim>\<open>os.path.isfile\<close> of the joined path look at the entry's node.
\<close>

datatype node =
    File
  | Dir "(string \<times> node) list"
  | Other
  | Missing

fun os_path_isdir :: "node \<Rightarrow> bool" where
  "os_path_isdir (Dir entries) = True"
| "os_path_isdir n = False"

fun os_path_isfile :: "node \<Rightarrow> bool" where
  "os_path_isfile File = True"
| "os_path_isfile n = False"

text \<open>
  Entry names of a real directory are non-empty and hold no slash. The predicate is a
  premise only where a theorem compares path strings.
\<close>

definition valid_name :: "string \<Rightarrow> bool" where
  "valid_name n = (n \<noteq> [] \<and> CHR ''/'' \<notin> set n)"

fun valid_names :: "node \<Rightarrow> bool"
  and valid_entries :: "(string \<times> node) list \<Rightarrow> bool" where
  "valid_names (Dir entries) = valid_entries entries"
| "valid_names File = True"
| "valid_names Other = True"
| "valid_names Missing = True"
| "valid_entries [] = True"
| "valid_entries ((name, t) # rest) = (valid_name name \<and> valid_names t \<and> valid_entries rest)"

subsection \<open>The path scanner\<close>

definition EXT_WHITELIST :: "string set" where
  "EXT_WHITELIST =
     {''.bmp'', ''.gif'', ''.png'', ''.jpg'', ''.jpeg'', ''.mkv'', ''.webm'', ''.mp4''}"

definition QUIT_CHOICE :: string where
  "QUIT_CHOICE = ''Quit sorting''"

text \<open>
  \<^verbatim>\<open>gather_files(current, recursive)\<close>. The path comes with the node it
  resolves to. The loop over \<^verbatim>\<open>os.listdir(current)\<close> is
  \<open>gather_files_loop\<close>, with the set \<^verbatim>\<open>ret\<close> as accumulator. The
  \<^verbatim>\<open>print\<close> calls of the scanner are not modelled.

  \<open>str_lower\<close> stands for \<^verbatim>\<open>str.lower\<close> in \<^verbatim>\<open>ext.lower()\<close>. Python
  lower-cases by the Unicode tables (the Kelvin sign U+212A, for one, becomes the letter k),
  so the function is a parameter of the scanner and nothing is assumed about it.
\<close>

fun gather_files ::
    "(string \<Rightarrow> string) \<Rightarrow> string \<Rightarrow> node \<Rightarrow> bool \<Rightarrow> error + string set"
  and gather_files_loop ::
    "(string \<Rightarrow> string) \<Rightarrow> string \<Rightarrow> (string \<times> node) list \<Rightarrow> bool \<Rightarrow> string set
       \<Rightarrow> error + string set" where
  "gather_files str_lower current (Dir entries) recursive =
     gather_files_loop str_lower current entries recursive {}"
| "gather_files str_lower current File recursive = Inl NotADirectoryError"
| "gather_files str_lower current Other recursive = Inl NotADirectoryError"
| "gather_files str_lower current Missing recursive = Inl FileNotFoundError"
| "gather_files_loop str_lower current [] recursive ret = Inr ret"
| "gather_files_loop str_lower current ((name, t) # rest) recursive ret =
     (let sub = os_path_join current name in
      case (if recursive \<and> os_path_isdir t
            then (case gather_files str_lower sub t recursive of
                    Inl e \<Rightarrow> Inl e
                  | Inr sub_files \<Rightarrow> Inr (ret \<union> sub_files))
            else Inr ret) of
        Inl e \<Rightarrow> Inl e
      | Inr ret1 \<Rightarrow>
          gather_files_loop str_lower current rest recursive
            (if os_path_isfile t \<and> str_lower (splitext_ext sub) \<in> EXT_WHITELIST
             then insert sub ret1 else ret1))"

text \<open>\<^verbatim>\<open>gather_directories(current)\<close>, in the same style.\<close>

fun gather_directories :: "string \<Rightarrow> node \<Rightarrow> error + string set"
  and gather_directories_loop ::
    "string \<Rightarrow> (string \<times> node) list \<Rightarrow> string set \<Rightarrow> error + string set" where
  "gather_directories current (Dir entries) = gather_directories_loop current entries {}"
| "gather_directories current File = Inl NotADirectoryError"
| "gather_directories current Other = Inl NotADirectoryError"
| "gather_directories current Missing = Inl FileNotFoundError"
| "gather_directories_loop current [] ret = Inr ret"
| "gather_directories_loop current ((name, t) # rest) ret =
     (let sub = os_path_join current name in
      if os_path_isdir t
      then (case gather_directories sub t of
              Inl e \<Rightarrow> Inl e
            | Inr sub_dirs \<Rightarrow> gather_directories_loop current rest (insert sub (ret \<union> sub_dirs)))
      else gather_directories_loop current rest ret)"

subsection \<open>The file system as the sorting engine changes it\<close>

text \<open>
  During sorting the file system is a map from paths to what is there. The two library
  calls of the engine are modelled on it. \<^verbatim>\<open>shutil.copy(src, dst)\<close> needs a
  regular file at \<open>src\<close>; into a directory \<open>dst\<close> it writes
  \<open>dst/basename(src)\<close>, otherwise the path \<open>dst\<close> itself; it refuses to copy a
  file onto itself and to overwrite a directory. \<^verbatim>\<open>os.remove(p)\<close> needs a regular
  file at \<open>p\<close>. Failures of the environment (permissions, a full disk) are not
  modelled. Paths are compared as strings and the parent directory of the target is not
  looked at: for two paths to one file, or for a target whose parent is missing, the
  library raises where this function copies.
\<close>

datatype kind = RegularFile | Directory

type_synonym disk = "string \<Rightarrow> kind option"

definition shutil_copy :: "disk \<Rightarrow> string \<Rightarrow> string \<Rightarrow> error + disk" where
  "shutil_copy d src dst =
     (case d src of
        None \<Rightarrow> Inl FileNotFoundError
      | Some Directory \<Rightarrow> Inl IsADirectoryError
      | Some RegularFile \<Rightarrow>
          (let target = (if d dst = Some Directory
                         then os_path_join dst (os_path_basename src) else dst)
           in if target = src then Inl SameFileError
              else if d target = Some Directory then Inl IsADirectoryError
              else Inr (d(target \<mapsto> RegularFile))))"

definition os_remove :: "disk \<Rightarrow> string \<Rightarrow> error + disk" where
  "os_remove d p =
     (case d p of
        None \<Rightarrow> Inl FileNotFoundError
      | Some Directory \<Rightarrow> Inl IsADirectoryError
      | Some RegularFile \<Rightarrow> Inr (d(p := None)))"

subsection \<open>The player\<close>

text \<open>
  The mpv player as \<^verbatim>\<open>sort_files\<close> uses it: a playlist, the position of the
  current entry, and whether the player still runs. \<open>played\<close> is the history of the
  entries whose playback was started. Appending to the playlist of an idle player starts
  nothing; setting \<^verbatim>\<open>playlist_pos\<close> starts the entry there; removing the current
  entry starts the entry that takes its place, if there is one. The fixed settings
  (\<^verbatim>\<open>loop-file\<close>, \<^verbatim>\<open>mute\<close>) keep the current entry playing until it is
  removed and are not modelled further.
\<close>

record mpv =
  playlist :: "string list"
  playlist_pos :: nat
  played :: "string list"
  running :: bool

definition MPV :: mpv where
  "MPV = \<lparr>playlist = [], playlist_pos = 0, played = [], running = True\<rparr>"

definition playlist_append :: "string \<Rightarrow> mpv \<Rightarrow> mpv" where
  "playlist_append fil p = p\<lparr>playlist := playlist p @ [fil]\<rparr>"

definition start_current :: "mpv \<Rightarrow> mpv" where
  "start_current p =
     (if playlist_pos p < length (playlist p)
      then p\<lparr>played := played p @ [playlist p ! playlist_pos p]\<rparr> else p)"

definition set_playlist_pos :: "nat \<Rightarrow> mpv \<Rightarrow> mpv" where
  "set_playlist_pos i p = start_current (p\<lparr>playlist_pos := i\<rparr>)"

definition playlist_remove :: "mpv \<Rightarrow> mpv" where
  "playlist_remove p =
     start_current
       (p\<lparr>playlist := take (playlist_pos p) (playlist p) @ drop (Suc (playlist_pos p)) (playlist p)\<rparr>)"

definition quit :: "mpv \<Rightarrow> mpv" where
  "quit p = p\<lparr>running := False\<rparr>"

text \<open>\<^verbatim>\<open>player.playlist[player.playlist_pos]['filename']\<close>\<close>

definition current_filename :: "mpv \<Rightarrow> error + string" where
  "current_filename p =
     (if playlist_pos p < length (playlist p)
      then Inr (playlist p ! playlist_pos p) else Inl IndexError)"

subsection \<open>The sorting engine\<close>

text \<open>
  What the run does that can be observed, in order: the lines it prints, the prompts it
  opens (with the list it offers), and the calls \<^verbatim>\<open>main\<close> makes.
\<close>

datatype callee = GatherFiles | GatherDirectories | SortFiles

datatype event =
    SourceNotDirectory string
  | TargetNotDirectory string
  | Entered callee
  | DirectoriesEmpty
  | Progress nat nat
  | Asked "string list"
  | Copied string string
  | Removed string
  | QuittingManually
  | DoneSorting

record world =
  disk :: disk
  player :: mpv
  trace :: "event list"

definition emit :: "event \<Rightarrow> world \<Rightarrow> world" where
  "emit e w = w\<lparr>trace := trace w @ [e]\<rparr>"

text \<open>
  One answer of \<^verbatim>\<open>iterfzf(cur_dirs, multi=True)\<close>: \<open>None\<close> when the operator
  cancels, otherwise the list of selected lines. The operator is a list of answers, used
  up one per prompt; when it is used up the prompt that is open never returns
  (\<open>NoAnswer\<close> for the loop, \<open>Waiting\<close> for the run).
\<close>

type_synonym response = "string list option"

text \<open>
  The \<^verbatim>\<open>for cho in choice\<close> loop: copy, report, remove the label from
  \<^verbatim>\<open>cur_dirs\<close>. \<^verbatim>\<open>list.remove\<close> raises \<open>ValueError\<close> for a label that
  is not in the list. The first component is the exception that ended the loop, if any.
\<close>

fun copy_choices ::
  "string \<Rightarrow> string list \<Rightarrow> string list \<Rightarrow> world \<Rightarrow> error option \<times> string list \<times> world" where
  "copy_choices cur_file [] cur_dirs w = (None, cur_dirs, w)"
| "copy_choices cur_file (cho # choice) cur_dirs w =
     (case shutil_copy (disk w) cur_file cho of
        Inl e \<Rightarrow> (Some e, cur_dirs, w)
      | Inr d \<Rightarrow>
          (let w1 = emit (Copied cur_file cho) (w\<lparr>disk := d\<rparr>)
           in if cho \<in> set cur_dirs
              then copy_choices cur_file choice (remove1 cho cur_dirs) w1
              else (Some ValueError, cur_dirs, w1)))"

text \<open>
  How the inner \<^verbatim>\<open>while cur_dirs and choice != None\<close> loop was left: by its
  condition (\<open>PoolEmpty\<close>, \<open>Cancelled\<close>), by \<^verbatim>\<open>break\<close>, by the
  \<^verbatim>\<open>return\<close> after \<open>QUIT_CHOICE\<close>, by an exception, or not at all.
\<close>

datatype exit = PoolEmpty | Cancelled | SingleBreak | QuitChosen | Raised error | NoAnswer

fun decision_loop ::
  "bool \<Rightarrow> string \<Rightarrow> string list \<Rightarrow> response list \<Rightarrow> world
     \<Rightarrow> exit \<times> string list \<times> response list \<times> world" where
  "decision_loop single cur_file cur_dirs [] w =
     (if cur_dirs = [] then (PoolEmpty, cur_dirs, [], w)
      else (NoAnswer, cur_dirs, [], emit (Asked cur_dirs) w))"
| "decision_loop single cur_file cur_dirs (choice # script) w =
     (if cur_dirs = [] then (PoolEmpty, cur_dirs, choice # script, w)
      else
        (let w1 = emit (Asked cur_dirs) w in
         case choice of
           None \<Rightarrow>
             if single then (SingleBreak, cur_dirs, script, w1)
             else (Cancelled, cur_dirs, script, w1)
         | Some [] \<Rightarrow>
             if single then (SingleBreak, cur_dirs, script, w1)
             else decision_loop single cur_file cur_dirs script w1
         | Some (c # cs) \<Rightarrow>
             if QUIT_CHOICE \<in> set (c # cs)
             then (QuitChosen, cur_dirs, script,
                   (emit QuittingManually w1)\<lparr>player := quit (player w1)\<rparr>)
             else
               (case copy_choices cur_file (c # cs) cur_dirs w1 of
                  (Some e, cur_dirs', w2) \<Rightarrow> (Raised e, cur_dirs', script, w2)
                | (None, cur_dirs', w2) \<Rightarrow>
                    if single then (SingleBreak, cur_dirs', script, w2)
                    else decision_loop single cur_file cur_dirs' script w2)))"

text \<open>How a run of the engine ends.\<close>

datatype outcome = Completed | QuitManually | Failed error | Waiting

text \<open>
  The body of the outer \<^verbatim>\<open>while flist\<close> loop for one file; \<open>remaining\<close> is
  \<^verbatim>\<open>len(flist)\<close>. The first component is \<open>None\<close> when the loop goes on with the
  next file and the outcome of the run when it does not.
\<close>

definition file_step ::
  "bool \<Rightarrow> bool \<Rightarrow> string list \<Rightarrow> nat \<Rightarrow> nat \<Rightarrow> response list \<Rightarrow> world
     \<Rightarrow> outcome option \<times> response list \<times> world" where
  "file_step delete single dlist remaining total_count script w =
     (case current_filename (player w) of
        Inl e \<Rightarrow> (Some (Failed e), script, w)
      | Inr cur_file \<Rightarrow>
          (let cur_dirs = dlist @ [QUIT_CHOICE];
               w1 = emit (Progress remaining total_count) w
           in case decision_loop single cur_file cur_dirs script w1 of
                (QuitChosen, cur_dirs', script', w2) \<Rightarrow> (Some QuitManually, script', w2)
              | (Raised e, cur_dirs', script', w2) \<Rightarrow> (Some (Failed e), script', w2)
              | (NoAnswer, cur_dirs', script', w2) \<Rightarrow> (Some Waiting, script', w2)
              | (_, cur_dirs', script', w2) \<Rightarrow>
                  (let w3 = w2\<lparr>player := playlist_remove (player w2)\<rparr>
                   in if delete
                      then (case os_remove (disk w3) cur_file of
                              Inl e \<Rightarrow> (Some (Failed e), script', w3)
                            | Inr d \<Rightarrow> (None, script', emit (Removed cur_file) (w3\<lparr>disk := d\<rparr>)))
                      else (None, script', w3))))"

fun sort_loop ::
  "bool \<Rightarrow> bool \<Rightarrow> string list \<Rightarrow> nat \<Rightarrow> string list \<Rightarrow> response list \<Rightarrow> world
     \<Rightarrow> outcome \<times> response list \<times> world" where
  "sort_loop delete single dlist total_count [] script w =
     (Completed, script, (emit DoneSorting w)\<lparr>player := quit (player w)\<rparr>)"
| "sort_loop delete single dlist total_count (fil # flist) script w =
     (case file_step delete single dlist (length (fil # flist)) total_count script w of
        (Some out, script', w') \<Rightarrow> (out, script', w')
      | (None, script', w') \<Rightarrow> sort_loop delete single dlist total_count flist script' w')"

text \<open>
  \<^verbatim>\<open>sort_files(flist, dlist, delete, single)\<close>. The two arguments are Python sets;
  the lists are the orders in which \<^verbatim>\<open>list(flist)\<close> and
  \<^verbatim>\<open>list(dlist)\<close> enumerate them, so theorems take them distinct where that
  matters. The answers of the operator and the disk are the environment.
\<close>

definition sort_files ::
  "string list \<Rightarrow> string list \<Rightarrow> bool \<Rightarrow> bool \<Rightarrow> response list \<Rightarrow> disk
     \<Rightarrow> outcome \<times> response list \<times> world" where
  "sort_files flist dlist delete single script d =
     (let total_count = length flist;
          player0 = set_playlist_pos 0 (foldl (\<lambda>p fil. playlist_append fil p) MPV flist)
      in sort_loop delete single dlist total_count flist script
           \<lparr>disk = d, player = player0, trace = []\<rparr>)"

subsection \<open>The entry point\<close>

text \<open>
  \<^verbatim>\<open>main(source, target, **options)\<close>. The three flags are the values of
  \<^verbatim>\<open>options.get(...) or False\<close>. \<open>src\<close> and \<open>tgt\<close> are what the two
  paths resolve to, \<open>d\<close> is the same file system as the engine sees it,
  \<open>list_of\<close> is the order in which Python enumerates a set, and \<open>str_lower\<close>
  is the lower-casing the scanner uses. An exception of a scanner ends the run.
\<close>

definition main ::
  "(string \<Rightarrow> string) \<Rightarrow> string \<Rightarrow> string \<Rightarrow> node \<Rightarrow> node \<Rightarrow> bool \<Rightarrow> bool \<Rightarrow> bool
     \<Rightarrow> (string set \<Rightarrow> string list) \<Rightarrow> response list \<Rightarrow> disk
     \<Rightarrow> outcome \<times> event list \<times> disk" where
  "main str_lower source target src tgt recursive delete single list_of script d =
     (let t1 = (if \<not> os_path_isdir src then [SourceNotDirectory source] else []);
          t2 = t1 @ (if \<not> os_path_isdir tgt then [TargetNotDirectory target] else []);
          t3 = t2 @ [Entered GatherFiles]
      in case gather_files str_lower source src recursive of
           Inl e \<Rightarrow> (Failed e, t3, d)
         | Inr flist \<Rightarrow>
             (let t4 = t3 @ [Entered GatherDirectories]
              in case gather_directories target tgt of
                   Inl e \<Rightarrow> (Failed e, t4, d)
                 | Inr dlist \<Rightarrow>
                     if flist \<noteq> {} \<and> dlist \<noteq> {}
                     then (case sort_files (list_of flist) (list_of dlist)
                                  delete single script d of
                             (out, script', w) \<Rightarrow>
                               (out, t4 @ [Entered SortFiles] @ trace w, disk w))
                     else (Completed, t4 @ [DirectoriesEmpty], d)))"

section \<open>What the specification talks about\<close>

subsection \<open>Scanner results, stated on the tree\<close>

text \<open>
  A media file is a path whose extension, compared without regard to case, is in the
  whitelist: lower-cased by Python, it is one of the whitelisted extensions, which are all
  in lower case. The files directly under a root are the entries of the root directory
  that are regular files.
\<close>

definition is_media :: "(string \<Rightarrow> string) \<Rightarrow> string \<Rightarrow> bool" where
  "is_media str_lower p = (str_lower (splitext_ext p) \<in> EXT_WHITELIST)"

definition direct_media_files ::
  "(string \<Rightarrow> string) \<Rightarrow> string \<Rightarrow> (string \<times> node) list \<Rightarrow> string set" where
  "direct_media_files str_lower root entries =
     {os_path_join root name | name.
        (name, File) \<in> set entries \<and> is_media str_lower (os_path_join root name)}"

text \<open>A regular file in a directory below the root, at any depth.\<close>

inductive nested_file :: "string \<Rightarrow> (string \<times> node) list \<Rightarrow> string \<Rightarrow> bool" where
  inside: "(d, Dir es) \<in> set entries \<Longrightarrow> (n, File) \<in> set es
     \<Longrightarrow> nested_file root entries (os_path_join (os_path_join root d) n)"
| further: "(d, Dir es) \<in> set entries \<Longrightarrow> nested_file (os_path_join root d) es p
     \<Longrightarrow> nested_file root entries p"

text \<open>A directory strictly below the root, at any depth.\<close>

inductive strict_descendant_dir :: "string \<Rightarrow> (string \<times> node) list \<Rightarrow> string \<Rightarrow> bool" where
  child: "(name, Dir es) \<in> set entries
     \<Longrightarrow> strict_descendant_dir root entries (os_path_join root name)"
| deeper: "(name, Dir es) \<in> set entries
     \<Longrightarrow> strict_descendant_dir (os_path_join root name) es p
     \<Longrightarrow> strict_descendant_dir root entries p"

text \<open>The number of separators in a path, and whether joining a name adds one.\<close>

definition slashes :: "string \<Rightarrow> nat" where
  "slashes p = length (filter (\<lambda>c. c = CHR ''/'') p)"

definition sep_needed :: "string \<Rightarrow> nat" where
  "sep_needed r = (if r = [] \<or> last r = CHR ''/'' then 0 else 1)"

subsection \<open>Reading a trace\<close>

text \<open>
  The lists offered at the prompts, the copies as pairs of file and label, and the files
  removed, each in the order of the trace.
\<close>

fun asked :: "event list \<Rightarrow> string list list" where
  "asked [] = []"
| "asked (Asked pool # es) = pool # asked es"
| "asked (e # es) = asked es"

fun copies :: "event list \<Rightarrow> (string \<times> string) list" where
  "copies [] = []"
| "copies (Copied f d # es) = (f, d) # copies es"
| "copies (e # es) = copies es"

fun removals :: "event list \<Rightarrow> string list" where
  "removals [] = []"
| "removals (Removed f # es) = f # removals es"
| "removals (e # es) = removals es"

text \<open>
  After a copy to a label, no later prompt of the trace offers that label and no later
  copy goes to it.
\<close>

fun consumed_stay_out :: "event list \<Rightarrow> bool" where
  "consumed_stay_out [] = True"
| "consumed_stay_out (Copied f d # es) =
     ((\<forall>pool \<in> set (asked es). d \<notin> set pool) \<and> d \<notin> snd ` set (copies es) \<and>
      consumed_stay_out es)"
| "consumed_stay_out (e # es) = consumed_stay_out es"

text \<open>Whether an answer of the operator holds the stop label.\<close>

fun holds_quit :: "response \<Rightarrow> bool" where
  "holds_quit None = False"
| "holds_quit (Some sel) = (QUIT_CHOICE \<in> set sel)"

subsection \<open>Lower-casing of ASCII strings\<close>

text \<open>
  What \<^verbatim>\<open>str.lower\<close> does to a string whose characters are all ASCII: the
  letters \<open>A\<close> to \<open>Z\<close> become \<open>a\<close> to \<open>z\<close> and every other character
  stays. It serves to evaluate the scanner on such names and is no model of
  \<^verbatim>\<open>str.lower\<close> beyond them.
\<close>

definition ascii_lower_char :: "char \<Rightarrow> char" where
  "ascii_lower_char c =
     (case map_of (zip ''ABCDEFGHIJKLMNOPQRSTUVWXYZ'' ''abcdefghijklmnopqrstuvwxyz'') c of
        Some d \<Rightarrow> d
      | None \<Rightarrow> c)"

definition ascii_lower :: "string \<Rightarrow> string" where
  "ascii_lower s = map ascii_lower_char s"

subsection \<open>A small run to evaluate\<close>

text \<open>
  Two media files, two target directories, and the world at the moment
  \<open>sort_files\<close> enters its loop on them.
\<close>

definition demo_disk :: disk where
  "demo_disk = [''s/a.png'' \<mapsto> RegularFile, ''s/b.mp4'' \<mapsto> RegularFile,
                ''t/x'' \<mapsto> Directory, ''t/y'' \<mapsto> Directory]"

definition demo_world :: world where
  "demo_world =
     \<lparr>disk = demo_disk,
      player = \<lparr>playlist = [''s/a.png'', ''s/b.mp4''], playlist_pos = 0,
                played = [''s/a.png''], running = True\<rparr>,
      trace = []\<rparr>"

section \<open>The path scanner: properties\<close>

lemma os_path_isfile_iff: "os_path_isfile t = (t = File)"
  by (cases t) auto

lemma os_path_isdir_iff: "os_path_isdir t = (\<exists>es. t = Dir es)"
  by (cases t) auto

lemma valid_entries_mem:
  "valid_entries entries \<Longrightarrow> (name, t) \<in> set entries \<Longrightarrow> valid_name name \<and> valid_names t"
  by (induction entries) auto

lemma slashes_join: "valid_name n \<Longrightarrow> slashes (os_path_join r n) = slashes r + sep_needed r"
  by (cases n)
    (auto simp: os_path_join_def valid_name_def slashes_def sep_needed_def filter_empty_conv)

lemma sep_needed_join: "valid_name n \<Longrightarrow> sep_needed (os_path_join r n) = 1"
  by (cases n rule: rev_cases) (auto simp: os_path_join_def valid_name_def sep_needed_def)

lemma join_longer: "valid_name name \<Longrightarrow> length root < length (os_path_join root name)"
  by (cases name) (auto simp: os_path_join_def valid_name_def)

subsection \<open>Files, without recursion\<close>

lemma gather_files_loop_flat:
  "gather_files_loop str_lower current entries False ret =
     Inr (ret \<union> direct_media_files str_lower current entries)"
proof (induction entries arbitrary: ret)
  case Nil
  show ?case by (simp add: direct_media_files_def)
next
  case (Cons e entries)
  obtain name t where e: "e = (name, t)" by (cases e)
  show ?case unfolding e
    by (auto simp: Cons.IH direct_media_files_def is_media_def os_path_isfile_iff Let_def)
qed

lemma nested_file_slashes:
  "nested_file r entries p \<Longrightarrow> valid_entries entries \<Longrightarrow> slashes r + sep_needed r < slashes p"
proof (induction rule: nested_file.induct)
  case (inside d es entries n root)
  from valid_entries_mem[OF inside.prems inside.hyps(1)]
  have d: "valid_name d" "valid_entries es" by auto
  from valid_entries_mem[OF d(2) inside.hyps(2)] have n: "valid_name n" by simp
  show ?case
    by (simp add: slashes_join[OF n] slashes_join[OF d(1)] sep_needed_join[OF d(1)])
next
  case (further d es entries root p)
  from valid_entries_mem[OF further.prems further.hyps(1)]
  have d: "valid_name d" "valid_entries es" by auto
  from further.IH[OF d(2)] show ?case
    by (simp add: slashes_join[OF d(1)] sep_needed_join[OF d(1)])
qed

lemma direct_media_files_slashes:
  "valid_entries entries \<Longrightarrow> p \<in> direct_media_files str_lower r entries
     \<Longrightarrow> slashes p = slashes r + sep_needed r"
  by (auto simp: direct_media_files_def slashes_join dest: valid_entries_mem)

text \<open>
  C7. Without the recursive flag, \<open>gather_files\<close> on a directory returns exactly the
  regular files directly under the root whose extension, lower-cased by
  \<^verbatim>\<open>str.lower\<close>, is in the whitelist; this holds whatever
  \<^verbatim>\<open>str.lower\<close> does to a string. With entry names as a file system has them,
  no file of a directory below the root is in the result.
\<close>

theorem gather_files_flat_exact:
  "gather_files str_lower root (Dir entries) False =
     Inr (direct_media_files str_lower root entries) \<and>
   (valid_entries entries \<longrightarrow>
      (\<forall>p. nested_file root entries p \<longrightarrow> p \<notin> direct_media_files str_lower root entries))"
proof -
  have "gather_files str_lower root (Dir entries) False =
          Inr (direct_media_files str_lower root entries)"
    by (simp add: gather_files_loop_flat)
  moreover have "\<forall>p. nested_file root entries p \<longrightarrow>
                     p \<notin> direct_media_files str_lower root entries"
    if v: "valid_entries entries"
    using nested_file_slashes[OF _ v] direct_media_files_slashes[OF v] by fastforce
  ultimately show ?thesis by blast
qed

theorem gather_files_flat_exact_witness:
  "gather_files ascii_lower ''s''
     (Dir [(''a.PNG'', File), (''b.txt'', File), (''sub'', Dir [(''c.mp4'', File)]),
           (''d.mkv'', Other)]) False = Inr {''s/a.PNG''} \<and>
   direct_media_files ascii_lower ''s''
     [(''a.PNG'', File), (''b.txt'', File), (''sub'', Dir [(''c.mp4'', File)]),
      (''d.mkv'', Other)] = {''s/a.PNG''} \<and>
   valid_entries
     [(''a.PNG'', File), (''b.txt'', File), (''sub'', Dir [(''c.mp4'', File)]),
      (''d.mkv'', Other)] \<and>
   nested_file ''s''
     [(''a.PNG'', File), (''b.txt'', File), (''sub'', Dir [(''c.mp4'', File)]),
      (''d.mkv'', Other)] ''s/sub/c.mp4'' \<and>
   ''s/sub/c.mp4'' \<notin> direct_media_files ascii_lower ''s''
     [(''a.PNG'', File), (''b.txt'', File), (''sub'', Dir [(''c.mp4'', File)]),
      (''d.mkv'', Other)]"
proof -
  let ?es = "[(''a.PNG'', File), (''b.txt'', File), (''sub'', Dir [(''c.mp4'', File)]),
              (''d.mkv'', Other)]"
  have v: "valid_entries ?es" by (simp add: valid_name_def)
  have n: "nested_file ''s'' ?es ''s/sub/c.mp4''"
    using nested_file.inside[of "''sub''" "[(''c.mp4'', File)]" ?es "''c.mp4''" "''s''"]
    by (simp add: os_path_join_def)
  have g: "gather_files ascii_lower ''s'' (Dir ?es) False = Inr {''s/a.PNG''}"
    by (simp add: os_path_join_def ascii_lower_def ascii_lower_char_def splitext_ext_def
        os_path_basename_def EXT_WHITELIST_def)
  from gather_files_flat_exact[of ascii_lower "''s''" ?es] v n g show ?thesis by simp
qed

subsection \<open>Directories\<close>

lemma strict_descendant_dir_Nil: "\<not> strict_descendant_dir root [] p"
  by (auto elim: strict_descendant_dir.cases)

lemma strict_descendant_dir_Cons:
  "strict_descendant_dir root ((name, t) # rest) p =
     ((case t of
         Dir es \<Rightarrow> p = os_path_join root name \<or>
                   strict_descendant_dir (os_path_join root name) es p
       | _ \<Rightarrow> False)
      \<or> strict_descendant_dir root rest p)"
  (is "?L = ?R")
proof
  assume ?L
  then show ?R
  proof (cases rule: strict_descendant_dir.cases)
    case (child n es)
    then show ?thesis by (auto intro: strict_descendant_dir.child)
  next
    case (deeper n es)
    then show ?thesis by (auto intro: strict_descendant_dir.deeper)
  qed
next
  assume r: ?R
  show ?L
  proof (cases "strict_descendant_dir root rest p")
    case True
    then show ?thesis
    proof (cases rule: strict_descendant_dir.cases)
      case (child n es)
      then show ?thesis
        using strict_descendant_dir.child[of n es "(name, t) # rest" root] by simp
    next
      case (deeper n es)
      then show ?thesis
        using strict_descendant_dir.deeper[of n es "(name, t) # rest" root p] by simp
    qed
  next
    case False
    with r obtain es where t: "t = Dir es"
      and d: "p = os_path_join root name \<or>
              strict_descendant_dir (os_path_join root name) es p"
      by (cases t) auto
    from d show ?thesis
    proof
      assume "p = os_path_join root name"
      then show ?thesis
        using strict_descendant_dir.child[of name es "(name, t) # rest" root] t by simp
    next
      assume "strict_descendant_dir (os_path_join root name) es p"
      then show ?thesis
        using strict_descendant_dir.deeper[of name es "(name, t) # rest" root p] t by simp
    qed
  qed
qed

lemma gather_directories_descendants:
  "\<forall>es. t = Dir es \<longrightarrow>
     gather_directories current t = Inr {p. strict_descendant_dir current es p}"
  "gather_directories_loop current entries ret =
     Inr (ret \<union> {p. strict_descendant_dir current entries p})"
proof (induction current t and current entries ret
    rule: gather_directories_gather_directories_loop.induct)
  case (1 current entries)
  then show ?case by simp
next
  case (6 current name t rest ret)
  show ?case
  proof (cases "os_path_isdir t")
    case True
    then obtain es where t: "t = Dir es" by (auto simp: os_path_isdir_iff)
    from 6(1)[OF refl True] t
    have a: "gather_directories (os_path_join current name) t =
             Inr {p. strict_descendant_dir (os_path_join current name) es p}" by simp
    from 6(2)[OF refl True a]
    show ?thesis using a t by (auto simp: strict_descendant_dir_Cons Let_def)
  next
    case False
    from 6(3)[OF refl False] False show ?thesis
      by (cases t) (auto simp: strict_descendant_dir_Cons Let_def)
  qed
qed (simp_all add: strict_descendant_dir_Nil)

lemma strict_descendant_dir_longer:
  "strict_descendant_dir root entries p \<Longrightarrow> valid_entries entries \<Longrightarrow> length root < length p"
proof (induction rule: strict_descendant_dir.induct)
  case (child name es entries root)
  then show ?case using valid_entries_mem join_longer by blast
next
  case (deeper name es entries root p)
  from valid_entries_mem[OF deeper.prems deeper.hyps(1)]
  have "valid_name name" "valid_entries es" by auto
  with deeper.IH join_longer[of name root] show ?case by simp
qed

text \<open>
  C8. \<open>gather_directories\<close> on a directory returns exactly the directories strictly
  below the root, at every depth. With entry names as a file system has them, the root is
  not among them. The function has no recursive flag: \<open>main\<close> gives the flag to
  \<open>gather_files\<close> alone.
\<close>

theorem gather_directories_exact:
  "gather_directories root (Dir entries) = Inr {p. strict_descendant_dir root entries p} \<and>
   (valid_entries entries \<longrightarrow> \<not> strict_descendant_dir root entries root)"
proof -
  have "gather_directories root (Dir entries) = Inr {p. strict_descendant_dir root entries p}"
    using gather_directories_descendants(1)[of "Dir entries" root] by simp
  moreover have "\<not> strict_descendant_dir root entries root" if "valid_entries entries"
    using strict_descendant_dir_longer[of root entries root] that by auto
  ultimately show ?thesis by blast
qed

theorem gather_directories_exact_witness:
  "gather_directories ''t''
     (Dir [(''x'', Dir [(''y'', Dir []), (''f.png'', File)]), (''z'', Dir [])])
     = Inr {''t/x'', ''t/x/y'', ''t/z''} \<and>
   valid_entries [(''x'', Dir [(''y'', Dir []), (''f.png'', File)]), (''z'', Dir [])] \<and>
   strict_descendant_dir ''t''
     [(''x'', Dir [(''y'', Dir []), (''f.png'', File)]), (''z'', Dir [])] ''t/x/y'' \<and>
   \<not> strict_descendant_dir ''t''
     [(''x'', Dir [(''y'', Dir []), (''f.png'', File)]), (''z'', Dir [])] ''t''"
proof -
  let ?es = "[(''x'', Dir [(''y'', Dir []), (''f.png'', File)]), (''z'', Dir [])]"
  have v: "valid_entries ?es" by (simp add: valid_name_def)
  have g: "gather_directories ''t'' (Dir ?es) = Inr {''t/x'', ''t/x/y'', ''t/z''}"
    by (auto simp: os_path_join_def)
  have d: "strict_descendant_dir ''t'' ?es ''t/x/y''"
    by (simp add: strict_descendant_dir_Cons strict_descendant_dir_Nil os_path_join_def)
  from gather_directories_exact[of "''t''" ?es] v g d show ?thesis by simp
qed

section \<open>The sorting engine: lemmas\<close>

subsection \<open>Traces, the disk and the copy loop\<close>

lemma trace_emit [simp]: "trace (emit e w) = trace w @ [e]"
  and disk_emit [simp]: "disk (emit e w) = disk w"
  and player_emit [simp]: "player (emit e w) = player w"
  by (simp_all add: emit_def)

lemma asked_append [simp]: "asked (xs @ ys) = asked xs @ asked ys"
  by (induction xs rule: asked.induct) simp_all

lemma copies_append [simp]: "copies (xs @ ys) = copies xs @ copies ys"
  by (induction xs rule: copies.induct) simp_all

lemma removals_append [simp]: "removals (xs @ ys) = removals xs @ removals ys"
  by (induction xs rule: removals.induct) simp_all

lemma asked_Copied [simp]: "asked (map (Copied f) ds) = []"
  by (induction ds) simp_all

lemma copies_Copied [simp]: "copies (map (Copied f) ds) = map (Pair f) ds"
  by (induction ds) simp_all

lemma removals_Copied [simp]: "removals (map (Copied f) ds) = []"
  by (induction ds) simp_all

lemma consumed_stay_out_append:
  "consumed_stay_out (xs @ ys) =
     (consumed_stay_out xs \<and> consumed_stay_out ys \<and>
      (\<forall>d \<in> snd ` set (copies xs).
         (\<forall>pool \<in> set (asked ys). d \<notin> set pool) \<and> d \<notin> snd ` set (copies ys)))"
  by (induction xs rule: consumed_stay_out.induct) auto

lemma consumed_stay_out_Copied:
  "consumed_stay_out (map (Copied f) ds) = distinct ds"
  by (induction ds) (auto simp: image_iff)

text \<open>What a successful library call leaves behind.\<close>

lemma shutil_copy_Inr:
  assumes "shutil_copy d src dst = Inr d'"
  shows "d src = Some RegularFile" and "d' src = d src"
    and "d p = Some RegularFile \<Longrightarrow> d' p = Some RegularFile"
  using assms
  by (auto simp: shutil_copy_def Let_def split: option.splits kind.splits if_splits)

lemma os_remove_Inr:
  assumes "os_remove d p = Inr d'"
  shows "d' p = None" and "q \<noteq> p \<Longrightarrow> d' q = d q"
  using assms by (auto simp: os_remove_def split: option.splits kind.splits)

lemma os_remove_regular: "d p = Some RegularFile \<Longrightarrow> os_remove d p = Inr (d(p := None))"
  by (simp add: os_remove_def)

text \<open>The loop over one selection.\<close>

lemma copy_choices_player:
  "copy_choices f choice cur_dirs w = (err, cur_dirs', w') \<Longrightarrow> player w' = player w"
  by (induction choice arbitrary: cur_dirs w)
     (auto simp: Let_def split: sum.splits if_splits)

lemma copy_choices_disk:
  "copy_choices f choice cur_dirs w = (err, cur_dirs', w') \<Longrightarrow>
     disk w' f = disk w f \<and> (disk w p = Some RegularFile \<longrightarrow> disk w' p = Some RegularFile)"
proof (induction choice arbitrary: cur_dirs w)
  case Nil
  then show ?case by simp
next
  case (Cons cho choice)
  show ?case
  proof (cases "shutil_copy (disk w) f cho")
    case (Inl e)
    with Cons.prems show ?thesis by simp
  next
    case (Inr d)
    note c = shutil_copy_Inr[OF Inr]
    show ?thesis
    proof (cases "cho \<in> set cur_dirs")
      case True
      with Cons.prems Inr
      have "copy_choices f choice (remove1 cho cur_dirs) (emit (Copied f cho) (w\<lparr>disk := d\<rparr>))
              = (err, cur_dirs', w')" by (simp add: Let_def)
      from Cons.IH[OF this] c show ?thesis by simp
    next
      case False
      with Cons.prems Inr c show ?thesis by (auto simp: Let_def)
    qed
  qed
qed

lemma copy_choices_trace:
  "copy_choices f choice cur_dirs w = (err, cur_dirs', w') \<Longrightarrow>
     \<exists>ds. trace w' = trace w @ map (Copied f) ds \<and>
          (err = None \<longrightarrow> ds = choice) \<and>
          set cur_dirs' \<subseteq> set cur_dirs \<and>
          (distinct cur_dirs \<longrightarrow> err \<noteq> Some ValueError \<longrightarrow>
             distinct ds \<and> distinct cur_dirs' \<and> set ds \<subseteq> set cur_dirs \<and>
             set cur_dirs' = set cur_dirs - set ds)"
proof (induction choice arbitrary: cur_dirs w)
  case Nil
  then show ?case by simp
next
  case (Cons cho choice)
  show ?case
  proof (cases "shutil_copy (disk w) f cho")
    case (Inl e)
    with Cons.prems show ?thesis by auto
  next
    case (Inr d)
    show ?thesis
    proof (cases "cho \<in> set cur_dirs")
      case True
      let ?w1 = "emit (Copied f cho) (w\<lparr>disk := d\<rparr>)"
      from True Cons.prems Inr
      have "copy_choices f choice (remove1 cho cur_dirs) ?w1 = (err, cur_dirs', w')"
        by (simp add: Let_def)
      from Cons.IH[OF this] obtain ds where ds:
        "trace w' = trace ?w1 @ map (Copied f) ds"
        "err = None \<longrightarrow> ds = choice"
        "set cur_dirs' \<subseteq> set (remove1 cho cur_dirs)"
        "distinct (remove1 cho cur_dirs) \<longrightarrow> err \<noteq> Some ValueError \<longrightarrow>
             distinct ds \<and> distinct cur_dirs' \<and> set ds \<subseteq> set (remove1 cho cur_dirs) \<and>
             set cur_dirs' = set (remove1 cho cur_dirs) - set ds"
        by blast
      have "trace w' = trace w @ map (Copied f) (cho # ds)" using ds(1) by simp
      moreover have "err = None \<longrightarrow> cho # ds = cho # choice" using ds(2) by simp
      moreover have "set cur_dirs' \<subseteq> set cur_dirs" using ds(3) set_remove1_subset by fast
      moreover have "distinct cur_dirs \<longrightarrow> err \<noteq> Some ValueError \<longrightarrow>
             distinct (cho # ds) \<and> distinct cur_dirs' \<and> set (cho # ds) \<subseteq> set cur_dirs \<and>
             set cur_dirs' = set cur_dirs - set (cho # ds)"
        using ds(4) True by (auto simp: set_remove1_eq)
      ultimately show ?thesis by blast
    next
      case False
      with Cons.prems Inr have "err = Some ValueError" "cur_dirs' = cur_dirs"
        "trace w' = trace w @ map (Copied f) [cho]" by (auto simp: Let_def)
      then show ?thesis by (intro exI[of _ "[cho]"]) auto
    qed
  qed
qed

lemma copy_choices_keeps:
  "copy_choices f choice cur_dirs w = (err, cur_dirs', w') \<Longrightarrow>
     q \<in> set cur_dirs \<Longrightarrow> q \<notin> set choice \<Longrightarrow> q \<in> set cur_dirs'"
proof (induction choice arbitrary: cur_dirs w)
  case Nil
  then show ?case by simp
next
  case (Cons cho choice)
  show ?case
  proof (cases "shutil_copy (disk w) f cho")
    case (Inl e)
    with Cons.prems show ?thesis by auto
  next
    case (Inr d)
    show ?thesis
    proof (cases "cho \<in> set cur_dirs")
      case True
      with Cons.prems Inr
      have "copy_choices f choice (remove1 cho cur_dirs) (emit (Copied f cho) (w\<lparr>disk := d\<rparr>))
              = (err, cur_dirs', w')" by (simp add: Let_def)
      from Cons.IH[OF this] Cons.prems(2,3) show ?thesis by (simp add: in_set_remove1)
    next
      case False
      with Cons.prems Inr show ?thesis by (auto simp: Let_def)
    qed
  qed
qed

subsection \<open>The decision loop, one round at a time\<close>

lemma decision_loop_cases [consumes 1, case_names empty noanswer cancel nothing_single
    nothing_again quit raised copied_single copied_again]:
  assumes "decision_loop single f cur_dirs script w = (ex, cur_dirs', script', w')"
  obtains
    "cur_dirs = []" "ex = PoolEmpty" "cur_dirs' = cur_dirs" "script' = script" "w' = w"
  | "cur_dirs \<noteq> []" "script = []" "ex = NoAnswer" "cur_dirs' = cur_dirs" "script' = []"
      "w' = emit (Asked cur_dirs) w"
  | "cur_dirs \<noteq> []" "script = None # script'" "ex = (if single then SingleBreak else Cancelled)"
      "cur_dirs' = cur_dirs" "w' = emit (Asked cur_dirs) w"
  | "cur_dirs \<noteq> []" "script = Some [] # script'" "single" "ex = SingleBreak"
      "cur_dirs' = cur_dirs" "w' = emit (Asked cur_dirs) w"
  | rest where "cur_dirs \<noteq> []" "script = Some [] # rest" "\<not> single"
      "decision_loop single f cur_dirs rest (emit (Asked cur_dirs) w) = (ex, cur_dirs', script', w')"
  | sel where "cur_dirs \<noteq> []" "script = Some sel # script'" "QUIT_CHOICE \<in> set sel"
      "ex = QuitChosen" "cur_dirs' = cur_dirs"
      "w' = (emit QuittingManually (emit (Asked cur_dirs) w))\<lparr>player := quit (player w)\<rparr>"
  | sel e where "cur_dirs \<noteq> []" "script = Some sel # script'" "sel \<noteq> []"
      "QUIT_CHOICE \<notin> set sel" "ex = Raised e"
      "copy_choices f sel cur_dirs (emit (Asked cur_dirs) w) = (Some e, cur_dirs', w')"
  | sel where "cur_dirs \<noteq> []" "script = Some sel # script'" "sel \<noteq> []"
      "QUIT_CHOICE \<notin> set sel" "single" "ex = SingleBreak"
      "copy_choices f sel cur_dirs (emit (Asked cur_dirs) w) = (None, cur_dirs', w')"
  | sel rest pool w2 where "cur_dirs \<noteq> []" "script = Some sel # rest" "sel \<noteq> []"
      "QUIT_CHOICE \<notin> set sel" "\<not> single"
      "copy_choices f sel cur_dirs (emit (Asked cur_dirs) w) = (None, pool, w2)"
      "decision_loop single f pool rest w2 = (ex, cur_dirs', script', w')"
proof (cases script)
  case Nil
  with assms that(1,2) show ?thesis by (auto split: if_splits)
next
  case (Cons choice rest)
  show ?thesis
  proof (cases "cur_dirs = []")
    case True
    with assms Cons that(1) show ?thesis by simp
  next
    case ne: False
    show ?thesis
    proof (cases choice)
      case None
      with assms Cons ne that(3) show ?thesis by (auto simp: Let_def split: if_splits)
    next
      case (Some sel)
      show ?thesis
      proof (cases sel)
        case Nil
        with assms Cons ne Some that(4,5) show ?thesis
          by (auto simp: Let_def split: if_splits)
      next
        case sel: (Cons c cs)
        show ?thesis
        proof (cases "QUIT_CHOICE \<in> set sel")
          case True
          with assms Cons ne Some sel
          have "script = Some sel # script'" "ex = QuitChosen" "cur_dirs' = cur_dirs"
            "w' = (emit QuittingManually (emit (Asked cur_dirs) w))\<lparr>player := quit (player w)\<rparr>"
            by (auto simp: Let_def)
          with ne True that(6)[of sel] show ?thesis by blast
        next
          case nq: False
          obtain err pool w2 where cc:
            "copy_choices f sel cur_dirs (emit (Asked cur_dirs) w) = (err, pool, w2)"
            by (cases "copy_choices f sel cur_dirs (emit (Asked cur_dirs) w)") auto
          show ?thesis
          proof (cases err)
            case (Some e)
            with assms Cons ne \<open>choice = Some sel\<close> sel nq cc that(7)[of sel e]
            show ?thesis by (auto simp: Let_def)
          next
            case None
            with assms Cons ne \<open>choice = Some sel\<close> sel nq cc that(8)[of sel]
              that(9)[of sel rest pool w2]
            show ?thesis by (auto simp: Let_def split: if_splits)
          qed
        qed
      qed
    qed
  qed
qed

subsection \<open>What a decision loop leaves unchanged, and what it adds\<close>

lemma decision_loop_player:
  "decision_loop single f cur_dirs script w = (ex, cur_dirs', script', w') \<Longrightarrow>
     player w' = (if ex = QuitChosen then quit (player w) else player w)"
proof (induction script arbitrary: cur_dirs w)
  case Nil
  then show ?case by (auto split: if_splits)
next
  case (Cons a script)
  from Cons.prems show ?case
  proof (cases rule: decision_loop_cases)
    case (nothing_again rest)
    with Cons.IH[of cur_dirs "emit (Asked cur_dirs) w"] show ?thesis by simp
  next
    case (raised sel e)
    with copy_choices_player[OF raised(6)] show ?thesis by simp
  next
    case (copied_single sel)
    with copy_choices_player[OF copied_single(7)] show ?thesis by simp
  next
    case (copied_again sel rest pool w2)
    with Cons.IH[of pool w2] copy_choices_player[OF copied_again(6)] show ?thesis by simp
  qed (simp_all add: quit_def)
qed

lemma decision_loop_disk:
  "decision_loop single f cur_dirs script w = (ex, cur_dirs', script', w') \<Longrightarrow>
     disk w' f = disk w f \<and> (disk w p = Some RegularFile \<longrightarrow> disk w' p = Some RegularFile)"
proof (induction script arbitrary: cur_dirs w)
  case Nil
  then show ?case by (auto split: if_splits)
next
  case (Cons a script)
  from Cons.prems show ?case
  proof (cases rule: decision_loop_cases)
    case (nothing_again rest)
    with Cons.IH[of cur_dirs "emit (Asked cur_dirs) w"] show ?thesis by simp
  next
    case (raised sel e)
    with copy_choices_disk[OF raised(6), of p] show ?thesis by simp
  next
    case (copied_single sel)
    with copy_choices_disk[OF copied_single(7), of p] show ?thesis by simp
  next
    case (copied_again sel rest pool w2)
    with Cons.IH[of pool w2] copy_choices_disk[OF copied_again(6), of p] show ?thesis by simp
  qed simp_all
qed

lemma decision_loop_script:
  "decision_loop single f cur_dirs script w = (ex, cur_dirs', script', w') \<Longrightarrow>
     \<exists>used. script = used @ script' \<and>
       (ex = QuitChosen \<longrightarrow> used \<noteq> [] \<and> holds_quit (last used)) \<and>
       (single \<longrightarrow> cur_dirs \<noteq> [] \<longrightarrow> script \<noteq> [] \<longrightarrow> length used = 1)"
proof (induction script arbitrary: cur_dirs w)
  case Nil
  then show ?case by (auto split: if_splits)
next
  case (Cons a script)
  from Cons.prems show ?case
  proof (cases rule: decision_loop_cases)
    case (nothing_again rest)
    with Cons.IH[of cur_dirs "emit (Asked cur_dirs) w"] obtain used where
      "script = used @ script'" "ex = QuitChosen \<longrightarrow> used \<noteq> [] \<and> holds_quit (last used)"
      by auto
    with nothing_again show ?thesis by (intro exI[of _ "a # used"]) auto
  next
    case (copied_again sel rest pool w2)
    with Cons.IH[of pool w2] obtain used where
      "script = used @ script'" "ex = QuitChosen \<longrightarrow> used \<noteq> [] \<and> holds_quit (last used)"
      by auto
    with copied_again show ?thesis by (intro exI[of _ "a # used"]) auto
  next
    case empty
    then show ?thesis by auto
  next
    case (quit sel)
    then show ?thesis by (intro exI[of _ "[a]"]) auto
  qed (auto intro: exI[of _ "[a]"])
qed

lemma decision_loop_trace:
  "decision_loop single f cur_dirs script w = (ex, cur_dirs', script', w') \<Longrightarrow>
     \<exists>evs. trace w' = trace w @ evs \<and> removals evs = [] \<and>
       fst ` set (copies evs) \<subseteq> {f} \<and>
       (\<forall>pool \<in> set (asked evs). set pool \<subseteq> set cur_dirs) \<and>
       set cur_dirs' \<subseteq> set cur_dirs \<and>
       (single \<longrightarrow> cur_dirs \<noteq> [] \<longrightarrow> script \<noteq> [] \<longrightarrow> asked evs = [cur_dirs])"
proof (induction script arbitrary: cur_dirs w)
  case Nil
  then show ?case by (auto split: if_splits)
next
  case (Cons a script)
  from Cons.prems show ?case
  proof (cases rule: decision_loop_cases)
    case (nothing_again rest)
    from Cons.IH[of cur_dirs "emit (Asked cur_dirs) w"] nothing_again
    obtain evs where "trace w' = trace w @ Asked cur_dirs # evs" "removals evs = []"
      "fst ` set (copies evs) \<subseteq> {f}" "\<forall>pool \<in> set (asked evs). set pool \<subseteq> set cur_dirs"
      "set cur_dirs' \<subseteq> set cur_dirs" by auto
    with nothing_again show ?thesis by (intro exI[of _ "Asked cur_dirs # evs"]) auto
  next
    case (raised sel e)
    from copy_choices_trace[OF raised(6)] obtain ds where
      "trace w' = trace w @ Asked cur_dirs # map (Copied f) ds" "set cur_dirs' \<subseteq> set cur_dirs"
      by auto
    with raised show ?thesis
      by (intro exI[of _ "Asked cur_dirs # map (Copied f) ds"]) auto
  next
    case (copied_single sel)
    from copy_choices_trace[OF copied_single(7)] obtain ds where
      "trace w' = trace w @ Asked cur_dirs # map (Copied f) ds" "set cur_dirs' \<subseteq> set cur_dirs"
      by auto
    with copied_single show ?thesis
      by (intro exI[of _ "Asked cur_dirs # map (Copied f) ds"]) auto
  next
    case (copied_again sel rest pool w2)
    from copy_choices_trace[OF copied_again(6)] obtain ds where ds:
      "trace w2 = trace w @ Asked cur_dirs # map (Copied f) ds" "set pool \<subseteq> set cur_dirs"
      by auto
    from Cons.IH[of pool w2] copied_again
    obtain evs where evs: "trace w' = trace w2 @ evs" "removals evs = []"
      "fst ` set (copies evs) \<subseteq> {f}" "\<forall>p \<in> set (asked evs). set p \<subseteq> set pool"
      "set cur_dirs' \<subseteq> set pool" by auto
    from evs(4) ds(2) have "\<forall>p \<in> set (asked evs). set p \<subseteq> set cur_dirs" by blast
    with evs ds copied_again show ?thesis
      by (intro exI[of _ "Asked cur_dirs # map (Copied f) ds @ evs"]) auto
  next
    case (quit sel)
    then show ?thesis
      by (intro exI[of _ "[Asked cur_dirs, QuittingManually]"]) auto
  qed auto
qed

lemma decision_loop_quit_kept:
  "decision_loop single f cur_dirs script w = (ex, cur_dirs', script', w') \<Longrightarrow>
   QUIT_CHOICE \<in> set cur_dirs \<Longrightarrow>
     ex \<noteq> PoolEmpty \<and> QUIT_CHOICE \<in> set cur_dirs' \<and>
     (\<exists>evs. trace w' = trace w @ evs \<and> (\<forall>pool \<in> set (asked evs). QUIT_CHOICE \<in> set pool))"
proof (induction script arbitrary: cur_dirs w)
  case Nil
  then show ?case by (auto split: if_splits)
next
  case (Cons a script)
  from Cons.prems(1) show ?case
  proof (cases rule: decision_loop_cases)
    case empty
    with Cons.prems(2) show ?thesis by simp
  next
    case (nothing_again rest)
    from Cons.IH[of cur_dirs "emit (Asked cur_dirs) w"] nothing_again Cons.prems(2)
    obtain evs where "ex \<noteq> PoolEmpty" "QUIT_CHOICE \<in> set cur_dirs'"
      "trace w' = trace w @ Asked cur_dirs # evs" "\<forall>pool \<in> set (asked evs). QUIT_CHOICE \<in> set pool"
      by auto
    with Cons.prems(2) show ?thesis by (intro conjI exI[of _ "Asked cur_dirs # evs"]) auto
  next
    case (raised sel e)
    from copy_choices_trace[OF raised(6)] copy_choices_keeps[OF raised(6), of QUIT_CHOICE]
      raised(4) Cons.prems(2)
    obtain ds where
      "trace w' = trace w @ Asked cur_dirs # map (Copied f) ds" "QUIT_CHOICE \<in> set cur_dirs'"
      by auto
    with raised Cons.prems(2) show ?thesis
      by (intro conjI exI[of _ "Asked cur_dirs # map (Copied f) ds"]) auto
  next
    case (copied_single sel)
    from copy_choices_trace[OF copied_single(7)]
      copy_choices_keeps[OF copied_single(7), of QUIT_CHOICE] copied_single(4) Cons.prems(2)
    obtain ds where
      "trace w' = trace w @ Asked cur_dirs # map (Copied f) ds" "QUIT_CHOICE \<in> set cur_dirs'"
      by auto
    with copied_single Cons.prems(2) show ?thesis
      by (intro conjI exI[of _ "Asked cur_dirs # map (Copied f) ds"]) auto
  next
    case (copied_again sel rest pool w2)
    from copy_choices_trace[OF copied_again(6)]
      copy_choices_keeps[OF copied_again(6), of QUIT_CHOICE] copied_again(4) Cons.prems(2)
    obtain ds where ds:
      "trace w2 = trace w @ Asked cur_dirs # map (Copied f) ds" "QUIT_CHOICE \<in> set pool"
      by auto
    from Cons.IH[of pool w2] copied_again ds(2)
    obtain evs where evs: "ex \<noteq> PoolEmpty" "QUIT_CHOICE \<in> set cur_dirs'"
      "trace w' = trace w2 @ evs" "\<forall>p \<in> set (asked evs). QUIT_CHOICE \<in> set p" by auto
    with ds Cons.prems(2) show ?thesis
      by (intro conjI exI[of _ "Asked cur_dirs # map (Copied f) ds @ evs"]) auto
  next
    case (quit sel)
    with Cons.prems(2) show ?thesis
      by (intro conjI exI[of _ "[Asked cur_dirs, QuittingManually]"]) auto
  next
    case cancel
    with Cons.prems(2) show ?thesis by (intro conjI exI[of _ "[Asked cur_dirs]"]) auto
  next
    case nothing_single
    with Cons.prems(2) show ?thesis by (intro conjI exI[of _ "[Asked cur_dirs]"]) auto
  qed auto
qed

lemma decision_loop_consumed:
  "decision_loop single f cur_dirs script w = (ex, cur_dirs', script', w') \<Longrightarrow>
   distinct cur_dirs \<Longrightarrow> ex \<noteq> Raised ValueError \<Longrightarrow>
     \<exists>evs. trace w' = trace w @ evs \<and> consumed_stay_out evs \<and> distinct (copies evs) \<and>
       distinct cur_dirs' \<and> set cur_dirs' = set cur_dirs - snd ` set (copies evs) \<and>
       snd ` set (copies evs) \<subseteq> set cur_dirs \<and>
       (\<forall>pool \<in> set (asked evs). set pool \<subseteq> set cur_dirs)"
proof (induction script arbitrary: cur_dirs w)
  case Nil
  then show ?case by (auto split: if_splits)
next
  case (Cons a script)
  note dist = Cons.prems(2) and nv = Cons.prems(3)
  from Cons.prems(1) show ?case
  proof (cases rule: decision_loop_cases)
    case empty
    with dist show ?thesis by auto
  next
    case noanswer
    then show ?thesis by simp
  next
    case cancel
    with dist show ?thesis by (intro exI[of _ "[Asked cur_dirs]"]) auto
  next
    case nothing_single
    with dist show ?thesis by (intro exI[of _ "[Asked cur_dirs]"]) auto
  next
    case (quit sel)
    with dist show ?thesis by (intro exI[of _ "[Asked cur_dirs, QuittingManually]"]) auto
  next
    case (nothing_again rest)
    from Cons.IH[of cur_dirs "emit (Asked cur_dirs) w"] nothing_again dist nv
    obtain evs where "trace w' = trace w @ Asked cur_dirs # evs" "consumed_stay_out evs"
      "distinct (copies evs)" "distinct cur_dirs'"
      "set cur_dirs' = set cur_dirs - snd ` set (copies evs)"
      "snd ` set (copies evs) \<subseteq> set cur_dirs"
      "\<forall>pool \<in> set (asked evs). set pool \<subseteq> set cur_dirs" by auto
    then show ?thesis by (intro exI[of _ "Asked cur_dirs # evs"]) auto
  next
    case (raised sel e)
    from copy_choices_trace[OF raised(6)] dist nv raised(5)
    obtain ds where "trace w' = trace w @ Asked cur_dirs # map (Copied f) ds"
      "distinct ds" "distinct cur_dirs'" "set ds \<subseteq> set cur_dirs"
      "set cur_dirs' = set cur_dirs - set ds" by auto
    then show ?thesis
      by (intro exI[of _ "Asked cur_dirs # map (Copied f) ds"])
        (auto simp: consumed_stay_out_Copied distinct_map inj_on_def image_iff)
  next
    case (copied_single sel)
    from copy_choices_trace[OF copied_single(7)] dist
    obtain ds where "trace w' = trace w @ Asked cur_dirs # map (Copied f) ds"
      "distinct ds" "distinct cur_dirs'" "set ds \<subseteq> set cur_dirs"
      "set cur_dirs' = set cur_dirs - set ds" by auto
    then show ?thesis
      by (intro exI[of _ "Asked cur_dirs # map (Copied f) ds"])
        (auto simp: consumed_stay_out_Copied distinct_map inj_on_def image_iff)
  next
    case (copied_again sel rest pool w2)
    from copy_choices_trace[OF copied_again(6)] dist
    obtain ds where ds: "trace w2 = trace w @ Asked cur_dirs # map (Copied f) ds"
      "distinct ds" "distinct pool" "set ds \<subseteq> set cur_dirs"
      "set pool = set cur_dirs - set ds" by auto
    from Cons.IH[of pool w2] copied_again ds(3) nv
    obtain evs where evs: "trace w' = trace w2 @ evs" "consumed_stay_out evs"
      "distinct (copies evs)" "distinct cur_dirs'"
      "set cur_dirs' = set pool - snd ` set (copies evs)"
      "snd ` set (copies evs) \<subseteq> set pool"
      "\<forall>p \<in> set (asked evs). set p \<subseteq> set pool" by auto
    let ?all = "Asked cur_dirs # map (Copied f) ds @ evs"
    have 1: "trace w' = trace w @ ?all" using ds(1) evs(1) by simp
    have sep: "\<forall>d \<in> set ds. (\<forall>p \<in> set (asked evs). d \<notin> set p) \<and> d \<notin> snd ` set (copies evs)"
      using ds(5) evs(6,7) by blast
    have 2: "consumed_stay_out ?all"
      using ds(2) evs(2) sep by (simp add: consumed_stay_out_append consumed_stay_out_Copied)
    have 3: "distinct (copies ?all)"
      using ds(2) evs(3) sep by (auto simp: distinct_map inj_on_def image_iff)
    have c: "snd ` set (copies ?all) = set ds \<union> snd ` set (copies evs)"
      by (simp add: image_Un image_image)
    have 4: "set cur_dirs' = set cur_dirs - snd ` set (copies ?all)"
      unfolding c using evs(5) ds(5) by auto
    have 5: "snd ` set (copies ?all) \<subseteq> set cur_dirs"
      unfolding c using evs(6) ds(4,5) by auto
    have 6: "\<forall>p \<in> set (asked ?all). set p \<subseteq> set cur_dirs"
      using evs(7) ds(5) by auto
    from 1 2 3 evs(4) 4 5 6 show ?thesis by blast
  qed
qed

section \<open>The sorting engine: properties\<close>

text \<open>The definitions a concrete run unfolds.\<close>

lemmas demo_defs = demo_world_def demo_disk_def emit_def QUIT_CHOICE_def shutil_copy_def
  os_remove_def os_path_join_def os_path_basename_def Let_def quit_def
  current_filename_def playlist_remove_def start_current_def file_step_def


subsection \<open>The candidate pool\<close>

text \<open>
  C10. In the decision loop of a file the pool is built as the directory labels followed by
  \<open>QUIT_CHOICE\<close>. Every list offered at a prompt holds \<open>QUIT_CHOICE\<close>, and so
  does the pool when the loop is left; the pool is never empty and the loop is never left
  because its pool ran empty. It is left by a cancellation, by the choice of
  \<open>QUIT_CHOICE\<close> or by the single-choice break; the two other ways out are not ends of
  the loop proper: an exception of a library call, and an operator who never answers.
\<close>

theorem quit_choice_always_offered:
  assumes "decision_loop single f (dlist @ [QUIT_CHOICE]) script w = (ex, cur_dirs', script', w')"
  shows "ex \<noteq> PoolEmpty \<and> QUIT_CHOICE \<in> set cur_dirs' \<and> cur_dirs' \<noteq> [] \<and>
         (\<exists>evs. trace w' = trace w @ evs \<and>
            (\<forall>pool \<in> set (asked evs). QUIT_CHOICE \<in> set pool \<and> pool \<noteq> [])) \<and>
         (ex = Cancelled \<or> ex = QuitChosen \<or> ex = SingleBreak \<or>
          (\<exists>e. ex = Raised e) \<or> ex = NoAnswer)"
proof -
  have q: "QUIT_CHOICE \<in> set (dlist @ [QUIT_CHOICE])" by simp
  from decision_loop_quit_kept[OF assms q]
  obtain evs where 1: "ex \<noteq> PoolEmpty" "QUIT_CHOICE \<in> set cur_dirs'"
    "trace w' = trace w @ evs" "\<forall>pool \<in> set (asked evs). QUIT_CHOICE \<in> set pool" by blast
  from 1(2) have 2: "cur_dirs' \<noteq> []" by auto
  from 1(4) have 3: "\<forall>pool \<in> set (asked evs). QUIT_CHOICE \<in> set pool \<and> pool \<noteq> []" by auto
  from 1(1) have 4: "ex = Cancelled \<or> ex = QuitChosen \<or> ex = SingleBreak \<or>
          (\<exists>e. ex = Raised e) \<or> ex = NoAnswer" by (cases ex) auto
  from 1(1,2,3) 2 3 4 show ?thesis by blast
qed

theorem quit_choice_always_offered_witness:
  "decision_loop False ''s/a.png'' ([''t/x'', ''t/y''] @ [QUIT_CHOICE])
      [Some [''t/x'', ''t/y''], None] demo_world
    = (Cancelled, [QUIT_CHOICE], [],
       demo_world\<lparr>disk := demo_disk(''t/x/a.png'' \<mapsto> RegularFile, ''t/y/a.png'' \<mapsto> RegularFile),
                   trace := [Asked [''t/x'', ''t/y'', QUIT_CHOICE],
                             Copied ''s/a.png'' ''t/x'', Copied ''s/a.png'' ''t/y'',
                             Asked [QUIT_CHOICE]]\<rparr>) \<and>
   Cancelled \<noteq> PoolEmpty \<and> QUIT_CHOICE \<in> set [QUIT_CHOICE]"
proof -
  have r: "decision_loop False ''s/a.png'' ([''t/x'', ''t/y''] @ [QUIT_CHOICE])
      [Some [''t/x'', ''t/y''], None] demo_world
    = (Cancelled, [QUIT_CHOICE], [],
       demo_world\<lparr>disk := demo_disk(''t/x/a.png'' \<mapsto> RegularFile, ''t/y/a.png'' \<mapsto> RegularFile),
                   trace := [Asked [''t/x'', ''t/y'', QUIT_CHOICE],
                             Copied ''s/a.png'' ''t/x'', Copied ''s/a.png'' ''t/y'',
                             Asked [QUIT_CHOICE]]\<rparr>)"
    by (simp add: demo_defs)
  from quit_choice_always_offered[OF r] r show ?thesis by simp
qed

text \<open>
  C3. In one decision loop, started on a pool without repetitions, a label that a copy went
  to is in no list offered later and receives no later copy, no pair of file and label is
  copied twice, and the pool at the end is the pool at the start without the labels copied
  to. The loop raises \<open>ValueError\<close> only when an answer names a label that the list
  offered to the operator does not hold, which the prompt never returns; such runs are set
  aside.
\<close>

theorem consumed_label_leaves_pool:
  assumes "decision_loop single f cur_dirs script w = (ex, cur_dirs', script', w')"
    and "distinct cur_dirs" and "ex \<noteq> Raised ValueError"
  shows "\<exists>evs. trace w' = trace w @ evs \<and> consumed_stay_out evs \<and> distinct (copies evs) \<and>
           set cur_dirs' = set cur_dirs - snd ` set (copies evs) \<and>
           (\<forall>pool \<in> set (asked evs). set pool \<subseteq> set cur_dirs)"
  using decision_loop_consumed[OF assms] by blast

theorem consumed_label_leaves_pool_witness:
  "distinct [''t/x'', ''t/y'', QUIT_CHOICE] \<and>
   fst (decision_loop False ''s/a.png'' [''t/x'', ''t/y'', QUIT_CHOICE]
          [Some [''t/x''], Some [''t/y''], None] demo_world) = Cancelled \<and>
   (\<exists>evs. trace (snd (snd (snd (decision_loop False ''s/a.png'' [''t/x'', ''t/y'', QUIT_CHOICE]
          [Some [''t/x''], Some [''t/y''], None] demo_world)))) = trace demo_world @ evs \<and>
      consumed_stay_out evs \<and> distinct (copies evs) \<and>
      set (fst (snd (decision_loop False ''s/a.png'' [''t/x'', ''t/y'', QUIT_CHOICE]
          [Some [''t/x''], Some [''t/y''], None] demo_world))) =
        set [''t/x'', ''t/y'', QUIT_CHOICE] - snd ` set (copies evs) \<and>
      (\<forall>pool \<in> set (asked evs). set pool \<subseteq> set [''t/x'', ''t/y'', QUIT_CHOICE]))"
proof -
  let ?R = "decision_loop False ''s/a.png'' [''t/x'', ''t/y'', QUIT_CHOICE]
          [Some [''t/x''], Some [''t/y''], None] demo_world"
  have d: "distinct [''t/x'', ''t/y'', QUIT_CHOICE]" by (simp add: QUIT_CHOICE_def)
  have e: "fst ?R = Cancelled" by (simp add: demo_defs)
  have r: "?R = (fst ?R, fst (snd ?R), fst (snd (snd ?R)), snd (snd (snd ?R)))" by simp
  from consumed_label_leaves_pool[OF r d] e d show ?thesis by simp
qed

subsection \<open>The stop label inside an answer\<close>

text \<open>
  C1, as the code has it. An answer that holds \<open>QUIT_CHOICE\<close>, alone or with
  directory labels and at any position among them, ends the decision loop at once: no copy
  of that answer is made, the disk and the pool are as they were before the prompt (so the
  copies of earlier answers stay), and the player is stopped. A decision loop that ends
  this way ends the whole run with that very world and the unread answers.
\<close>

theorem quit_response_applies_no_copy:
  "(decision_loop single f cur_dirs (Some sel # script) w = (ex, cur_dirs', script', w') \<longrightarrow>
      cur_dirs \<noteq> [] \<longrightarrow> QUIT_CHOICE \<in> set sel \<longrightarrow>
        ex = QuitChosen \<and> cur_dirs' = cur_dirs \<and> script' = script \<and> disk w' = disk w \<and>
        trace w' = trace w @ [Asked cur_dirs, QuittingManually] \<and> \<not> running (player w')) \<and>
   (current_filename (player w0) = Inr f0 \<longrightarrow>
      decision_loop single f0 (dlist @ [QUIT_CHOICE]) script0
        (emit (Progress (length (fil # flist)) total_count) w0) = (QuitChosen, pool, rest, w2) \<longrightarrow>
      sort_loop delete single dlist total_count (fil # flist) script0 w0 = (QuitManually, rest, w2))"
proof (intro conjI impI)
  assume a: "decision_loop single f cur_dirs (Some sel # script) w = (ex, cur_dirs', script', w')"
    "cur_dirs \<noteq> []" "QUIT_CHOICE \<in> set sel"
  then obtain c cs where "sel = c # cs" by (cases sel) auto
  with a have "ex = QuitChosen \<and> cur_dirs' = cur_dirs \<and> script' = script \<and>
     w' = (emit QuittingManually (emit (Asked cur_dirs) w))\<lparr>player := quit (player w)\<rparr>"
    by (auto simp: Let_def)
  then show "ex = QuitChosen" "cur_dirs' = cur_dirs" "script' = script" "disk w' = disk w"
    "trace w' = trace w @ [Asked cur_dirs, QuittingManually]" "\<not> running (player w')"
    by (simp_all add: quit_def)
next
  assume "current_filename (player w0) = Inr f0"
    "decision_loop single f0 (dlist @ [QUIT_CHOICE]) script0
        (emit (Progress (length (fil # flist)) total_count) w0) = (QuitChosen, pool, rest, w2)"
  then show "sort_loop delete single dlist total_count (fil # flist) script0 w0 = (QuitManually, rest, w2)"
    by (simp add: file_step_def Let_def)
qed

theorem quit_response_applies_no_copy_witness:
  "decision_loop False ''s/a.png'' [''t/x'', ''t/y'', QUIT_CHOICE]
       (Some [''t/x'', QUIT_CHOICE] # [None]) demo_world
     = (QuitChosen, [''t/x'', ''t/y'', QUIT_CHOICE], [None],
        demo_world\<lparr>trace := [Asked [''t/x'', ''t/y'', QUIT_CHOICE], QuittingManually],
                    player := quit (player demo_world)\<rparr>) \<and>
   [''t/x'', ''t/y'', QUIT_CHOICE] \<noteq> [] \<and> QUIT_CHOICE \<in> set [''t/x'', QUIT_CHOICE] \<and>
   current_filename (player demo_world) = Inr ''s/a.png'' \<and>
   decision_loop False ''s/a.png'' ([''t/x'', ''t/y''] @ [QUIT_CHOICE])
       [Some [''t/x''], Some [QUIT_CHOICE, ''t/y''], None]
       (emit (Progress (length [''s/a.png'', ''s/b.mp4'']) 2) demo_world)
     = (QuitChosen, [''t/y'', QUIT_CHOICE], [None],
        demo_world\<lparr>disk := demo_disk(''t/x/a.png'' \<mapsto> RegularFile),
                    trace := [Progress 2 2, Asked [''t/x'', ''t/y'', QUIT_CHOICE],
                              Copied ''s/a.png'' ''t/x'', Asked [''t/y'', QUIT_CHOICE],
                              QuittingManually],
                    player := quit (player demo_world)\<rparr>) \<and>
   sort_loop True False [''t/x'', ''t/y''] 2 [''s/a.png'', ''s/b.mp4'']
       [Some [''t/x''], Some [QUIT_CHOICE, ''t/y''], None] demo_world
     = (QuitManually, [None],
        demo_world\<lparr>disk := demo_disk(''t/x/a.png'' \<mapsto> RegularFile),
                    trace := [Progress 2 2, Asked [''t/x'', ''t/y'', QUIT_CHOICE],
                              Copied ''s/a.png'' ''t/x'', Asked [''t/y'', QUIT_CHOICE],
                              QuittingManually],
                    player := quit (player demo_world)\<rparr>)"
proof -
  let ?w1 = "demo_world\<lparr>trace := [Asked [''t/x'', ''t/y'', QUIT_CHOICE], QuittingManually],
                    player := quit (player demo_world)\<rparr>"
  let ?w2 = "demo_world\<lparr>disk := demo_disk(''t/x/a.png'' \<mapsto> RegularFile),
                    trace := [Progress 2 2, Asked [''t/x'', ''t/y'', QUIT_CHOICE],
                              Copied ''s/a.png'' ''t/x'', Asked [''t/y'', QUIT_CHOICE],
                              QuittingManually],
                    player := quit (player demo_world)\<rparr>"
  have a: "decision_loop False ''s/a.png'' [''t/x'', ''t/y'', QUIT_CHOICE]
       (Some [''t/x'', QUIT_CHOICE] # [None]) demo_world
     = (QuitChosen, [''t/x'', ''t/y'', QUIT_CHOICE], [None], ?w1)"
    by (simp add: demo_defs)
  have b: "current_filename (player demo_world) = Inr ''s/a.png''"
    by (simp add: demo_defs)
  have c: "decision_loop False ''s/a.png'' ([''t/x'', ''t/y''] @ [QUIT_CHOICE])
       [Some [''t/x''], Some [QUIT_CHOICE, ''t/y''], None]
       (emit (Progress (length [''s/a.png'', ''s/b.mp4'']) 2) demo_world)
     = (QuitChosen, [''t/y'', QUIT_CHOICE], [None], ?w2)"
    by (simp add: demo_defs)
  have d: "[''t/x'', ''t/y'', QUIT_CHOICE] \<noteq> []" "QUIT_CHOICE \<in> set [''t/x'', QUIT_CHOICE]"
    by simp_all
  from quit_response_applies_no_copy[of False "''s/a.png''" "[''t/x'', ''t/y'', QUIT_CHOICE]"
      "[''t/x'', QUIT_CHOICE]" "[None]" demo_world QuitChosen "[''t/x'', ''t/y'', QUIT_CHOICE]"
      "[None]" ?w1 demo_world "''s/a.png''" "[''t/x'', ''t/y'']"
      "[Some [''t/x''], Some [QUIT_CHOICE, ''t/y''], None]" "''s/a.png''" "[''s/b.mp4'']" 2
      "[''t/y'', QUIT_CHOICE]" "[None]" ?w2 True]
    a b c d
  show ?thesis by simp
qed

text \<open>
  The claim as the specification words it fails: in the answer below the label
  \<open>t/x\<close> stands before \<open>QUIT_CHOICE\<close>, the run quits, and no copy to
  \<open>t/x\<close> was made.
\<close>

theorem quit_with_labels_counterexample:
  "fst (sort_files [''s/a.png'', ''s/b.mp4''] [''t/x'', ''t/y''] False False
          [Some [''t/x'', QUIT_CHOICE]] demo_disk) = QuitManually \<and>
   copies (trace (snd (snd (sort_files [''s/a.png'', ''s/b.mp4''] [''t/x'', ''t/y''] False False
          [Some [''t/x'', QUIT_CHOICE]] demo_disk)))) = [] \<and>
   disk (snd (snd (sort_files [''s/a.png'', ''s/b.mp4''] [''t/x'', ''t/y''] False False
          [Some [''t/x'', QUIT_CHOICE]] demo_disk))) ''t/x/a.png'' = None"
  by (simp add: sort_files_def MPV_def playlist_append_def set_playlist_pos_def
      demo_disk_def emit_def QUIT_CHOICE_def Let_def quit_def
      current_filename_def start_current_def file_step_def)

subsection \<open>One file\<close>

lemma file_step_None:
  assumes "file_step delete single dlist remaining total_count script w = (None, script', w')"
    and "current_filename (player w) = Inr f"
  shows "player w' = playlist_remove (player w)"
    and "\<exists>evs. trace w' = trace w @ evs \<and> fst ` set (copies evs) \<subseteq> {f} \<and>
            removals evs = (if delete then [f] else [])"
    and "p \<noteq> f \<or> \<not> delete \<Longrightarrow> disk w p = Some RegularFile \<Longrightarrow> disk w' p = Some RegularFile"
    and "delete \<Longrightarrow> disk w' f = None"
    and "\<exists>used. script = used @ script'"
proof -
  let ?w1 = "emit (Progress remaining total_count) w"
  obtain ex pool s2 w2 where dl:
    "decision_loop single f (dlist @ [QUIT_CHOICE]) script ?w1 = (ex, pool, s2, w2)"
    by (cases "decision_loop single f (dlist @ [QUIT_CHOICE]) script ?w1") auto
  let ?w3 = "w2\<lparr>player := playlist_remove (player w2)\<rparr>"
  from assms dl have ex: "ex \<noteq> QuitChosen" "\<forall>e. ex \<noteq> Raised e" "ex \<noteq> NoAnswer"
    by (auto simp: file_step_def Let_def split: exit.splits)
  from assms dl ex have s: "s2 = script'"
    by (auto simp: file_step_def Let_def split: exit.splits if_splits sum.splits)
  from assms dl ex have w': "w' = (if delete then emit (Removed f) (?w3\<lparr>disk := (disk w2)(f := None)\<rparr>) else ?w3)"
    and rm: "delete \<longrightarrow> disk w2 f = Some RegularFile"
    by (auto simp: file_step_def Let_def os_remove_def
        split: exit.splits if_splits sum.splits option.splits kind.splits)
  from decision_loop_player[OF dl] ex have pl: "player w2 = player w" by simp
  from decision_loop_disk[OF dl, of p] have dk: "disk w2 f = disk w f"
    "disk w p = Some RegularFile \<Longrightarrow> disk w2 p = Some RegularFile" by simp_all
  from decision_loop_trace[OF dl] obtain evs where evs: "trace w2 = trace ?w1 @ evs"
    "removals evs = []" "fst ` set (copies evs) \<subseteq> {f}" by blast
  show "player w' = playlist_remove (player w)" using w' pl by simp
  show "\<exists>evs. trace w' = trace w @ evs \<and> fst ` set (copies evs) \<subseteq> {f} \<and>
            removals evs = (if delete then [f] else [])"
    using w' evs
    by (intro exI[of _ "Progress remaining total_count # evs @ (if delete then [Removed f] else [])"])
      auto
  show "p \<noteq> f \<or> \<not> delete \<Longrightarrow> disk w p = Some RegularFile \<Longrightarrow> disk w' p = Some RegularFile"
    using w' dk by auto
  show "delete \<Longrightarrow> disk w' f = None" using w' by simp
  from decision_loop_script[OF dl] s show "\<exists>used. script = used @ script'" by auto
qed


text \<open>
  C4. With the single-choice flag set, the step for the current file reads exactly one
  answer and opens exactly one prompt, on the full pool, whatever the answer is. If the
  answer holds \<open>QUIT_CHOICE\<close> the run quits; otherwise the engine goes on to the
  next file (the player drops the current entry), unless a library call raised. After a
  cancellation or an empty selection it always goes on, given that a file to delete is
  there.
\<close>

theorem single_choice_one_round:
  assumes "file_step delete True dlist remaining total_count (r # script) w = (res, script', w')"
    and "current_filename (player w) = Inr f"
  shows "script' = script \<and>
         (\<exists>evs. trace w' = trace w @ evs \<and> asked evs = [dlist @ [QUIT_CHOICE]]) \<and>
         (holds_quit r \<longrightarrow> res = Some QuitManually) \<and>
         (\<not> holds_quit r \<longrightarrow> res = None \<or> (\<exists>e. res = Some (Failed e))) \<and>
         ((r = None \<or> r = Some []) \<and> (delete \<longrightarrow> disk w f = Some RegularFile) \<longrightarrow> res = None) \<and>
         (res = None \<longrightarrow> player w' = playlist_remove (player w))"
proof -
  let ?w1 = "emit (Progress remaining total_count) w"
  let ?pool = "dlist @ [QUIT_CHOICE]"
  obtain ex pool s2 w2 where dl:
    "decision_loop True f ?pool (r # script) ?w1 = (ex, pool, s2, w2)"
    by (cases "decision_loop True f ?pool (r # script) ?w1") auto
  have ne: "?pool \<noteq> []" by simp
  from decision_loop_script[OF dl] ne have s2: "s2 = script" by (auto simp: length_Suc_conv)
  from decision_loop_trace[OF dl] ne obtain evs where evs:
    "trace w2 = trace ?w1 @ evs" "asked evs = [?pool]" "removals evs = []" by auto
  from decision_loop_player[OF dl] have pl: "ex \<noteq> QuitChosen \<Longrightarrow> player w2 = player w" by simp
  from decision_loop_disk[OF dl] have dk: "disk w2 f = disk w f" by simp
  have exs: "ex = SingleBreak \<or> ex = QuitChosen \<or> (\<exists>e. ex = Raised e)"
    and exq: "holds_quit r \<longleftrightarrow> ex = QuitChosen"
    and exn: "r = None \<or> r = Some [] \<Longrightarrow> ex = SingleBreak"
    using dl by (cases rule: decision_loop_cases; auto)+
  let ?w3 = "w2\<lparr>player := playlist_remove (player w2)\<rparr>"
  from assms dl s2 have s: "script' = script"
    by (auto simp: file_step_def Let_def split: exit.splits if_splits sum.splits)
  have q: "holds_quit r \<longrightarrow> res = Some QuitManually"
    using assms dl exq by (auto simp: file_step_def Let_def)
  have nq: "\<not> holds_quit r \<longrightarrow> res = None \<or> (\<exists>e. res = Some (Failed e))"
    using assms dl exq exs
    by (auto simp: file_step_def Let_def split: exit.splits if_splits sum.splits)
  have adv: "(r = None \<or> r = Some []) \<and> (delete \<longrightarrow> disk w f = Some RegularFile) \<longrightarrow> res = None"
    using assms dl exn dk
    by (auto simp: file_step_def Let_def os_remove_regular split: if_splits)
  have pr: "res = None \<longrightarrow> player w' = playlist_remove (player w)"
    using file_step_None(1)[OF _ assms(2)] assms(1) by auto
  have tr: "\<exists>evs. trace w' = trace w @ evs \<and> asked evs = [?pool]"
  proof (cases "res = None \<and> delete")
    case True
    with assms dl exs have "trace w' = trace w2 @ [Removed f]"
      by (auto simp: file_step_def Let_def split: exit.splits if_splits sum.splits)
    with evs show ?thesis
      by (intro exI[of _ "Progress remaining total_count # evs @ [Removed f]"]) simp
  next
    case False
    with assms dl exs have "trace w' = trace w2"
      by (auto simp: file_step_def Let_def split: exit.splits if_splits sum.splits)
    with evs show ?thesis
      by (intro exI[of _ "Progress remaining total_count # evs"]) simp
  qed
  from s tr q nq adv pr show ?thesis by blast
qed

theorem single_choice_one_round_witness:
  "file_step False True [''t/x'', ''t/y''] 2 2
       (Some [''t/x'', ''t/y''] # [Some [''t/x''], None]) demo_world
     = (None, [Some [''t/x''], None],
        \<lparr>disk = demo_disk(''t/x/a.png'' \<mapsto> RegularFile, ''t/y/a.png'' \<mapsto> RegularFile),
         player = \<lparr>playlist = [''s/b.mp4''], playlist_pos = 0,
                   played = [''s/a.png'', ''s/b.mp4''], running = True\<rparr>,
         trace = [Progress 2 2, Asked [''t/x'', ''t/y'', QUIT_CHOICE],
                  Copied ''s/a.png'' ''t/x'', Copied ''s/a.png'' ''t/y'']\<rparr>) \<and>
   current_filename (player demo_world) = Inr ''s/a.png'' \<and>
   \<not> holds_quit (Some [''t/x'', ''t/y'']) \<and>
   asked [Progress 2 2, Asked [''t/x'', ''t/y'', QUIT_CHOICE],
          Copied ''s/a.png'' ''t/x'', Copied ''s/a.png'' ''t/y''] = [[''t/x'', ''t/y''] @ [QUIT_CHOICE]] \<and>
   playlist_remove (player demo_world) =
     \<lparr>playlist = [''s/b.mp4''], playlist_pos = 0,
      played = [''s/a.png'', ''s/b.mp4''], running = True\<rparr>"
proof -
  let ?w = "\<lparr>disk = demo_disk(''t/x/a.png'' \<mapsto> RegularFile, ''t/y/a.png'' \<mapsto> RegularFile),
         player = \<lparr>playlist = [''s/b.mp4''], playlist_pos = 0,
                   played = [''s/a.png'', ''s/b.mp4''], running = True\<rparr>,
         trace = [Progress 2 2, Asked [''t/x'', ''t/y'', QUIT_CHOICE],
                  Copied ''s/a.png'' ''t/x'', Copied ''s/a.png'' ''t/y'']\<rparr>"
  have r: "file_step False True [''t/x'', ''t/y''] 2 2
       (Some [''t/x'', ''t/y''] # [Some [''t/x''], None]) demo_world
     = (None, [Some [''t/x''], None], ?w)"
    by (simp add: demo_defs)
  have c: "current_filename (player demo_world) = Inr ''s/a.png''"
    by (simp add: demo_defs)
  have q: "\<not> holds_quit (Some [''t/x'', ''t/y''])" by (simp add: QUIT_CHOICE_def)
  from single_choice_one_round[OF r c] r c q show ?thesis by (auto simp: demo_world_def)
qed

text \<open>
  C5. Let the current file be a regular file on the disk and let its decision loop end by a
  cancellation or by the single-choice break. Then the engine goes on to the next file, and
  if the delete flag is set the file is gone from the disk and its removal is reported
  once; if the flag is not set the file is still there and nothing is removed.
\<close>

theorem delete_flag_effect:
  assumes "current_filename (player w) = Inr f"
    and "disk w f = Some RegularFile"
    and "decision_loop single f (dlist @ [QUIT_CHOICE]) script
           (emit (Progress remaining total_count) w) = (ex, pool, script', w2)"
    and "ex = Cancelled \<or> ex = SingleBreak"
    and "file_step delete single dlist remaining total_count script w = (res, script'', w')"
  shows "res = None \<and> script'' = script' \<and>
         disk w' f = (if delete then None else Some RegularFile) \<and>
         (\<exists>evs. trace w' = trace w @ evs \<and> removals evs = (if delete then [f] else []))"
proof -
  from decision_loop_disk[OF assms(3)] assms(2) have dk: "disk w2 f = Some RegularFile" by simp
  from assms(1,3,4,5) dk have r: "res = None" "script'' = script'"
    by (auto simp: file_step_def Let_def os_remove_regular split: if_splits)
  note n = file_step_None[OF assms(5)[unfolded r(1)] assms(1)]
  from n(3)[of f] assms(2) n(4) have "disk w' f = (if delete then None else Some RegularFile)"
    by auto
  moreover from n(2) have "\<exists>evs. trace w' = trace w @ evs \<and> removals evs = (if delete then [f] else [])"
    by blast
  ultimately show ?thesis using r by blast
qed

theorem delete_flag_effect_witness:
  "current_filename (player demo_world) = Inr ''s/a.png'' \<and>
   disk demo_world ''s/a.png'' = Some RegularFile \<and>
   decision_loop False ''s/a.png'' ([''t/x'', ''t/y''] @ [QUIT_CHOICE]) [Some [''t/x''], None, None]
       (emit (Progress 2 2) demo_world)
     = (Cancelled, [''t/y'', QUIT_CHOICE], [None],
        demo_world\<lparr>disk := demo_disk(''t/x/a.png'' \<mapsto> RegularFile),
                    trace := [Progress 2 2, Asked [''t/x'', ''t/y'', QUIT_CHOICE],
                              Copied ''s/a.png'' ''t/x'', Asked [''t/y'', QUIT_CHOICE]]\<rparr>) \<and>
   fst (file_step True False [''t/x'', ''t/y''] 2 2 [Some [''t/x''], None, None] demo_world) = None \<and>
   disk (snd (snd (file_step True False [''t/x'', ''t/y''] 2 2 [Some [''t/x''], None, None]
                     demo_world))) ''s/a.png'' = None \<and>
   fst (file_step False False [''t/x'', ''t/y''] 2 2 [Some [''t/x''], None, None] demo_world) = None \<and>
   disk (snd (snd (file_step False False [''t/x'', ''t/y''] 2 2 [Some [''t/x''], None, None]
                     demo_world))) ''s/a.png'' = Some RegularFile"
proof -
  let ?w2 = "demo_world\<lparr>disk := demo_disk(''t/x/a.png'' \<mapsto> RegularFile),
                    trace := [Progress 2 2, Asked [''t/x'', ''t/y'', QUIT_CHOICE],
                              Copied ''s/a.png'' ''t/x'', Asked [''t/y'', QUIT_CHOICE]]\<rparr>"
  let ?T = "file_step True False [''t/x'', ''t/y''] 2 2 [Some [''t/x''], None, None] demo_world"
  let ?F = "file_step False False [''t/x'', ''t/y''] 2 2 [Some [''t/x''], None, None] demo_world"
  have c: "current_filename (player demo_world) = Inr ''s/a.png''"
    by (simp add: demo_defs)
  have k: "disk demo_world ''s/a.png'' = Some RegularFile" by (simp add: demo_defs)
  have dl: "decision_loop False ''s/a.png'' ([''t/x'', ''t/y''] @ [QUIT_CHOICE])
       [Some [''t/x''], None, None] (emit (Progress 2 2) demo_world)
     = (Cancelled, [''t/y'', QUIT_CHOICE], [None], ?w2)"
    by (simp add: demo_defs)
  have e: "Cancelled = Cancelled \<or> Cancelled = SingleBreak" by simp
  have t: "?T = (fst ?T, fst (snd ?T), snd (snd ?T))" by simp
  have f: "?F = (fst ?F, fst (snd ?F), snd (snd ?F))" by simp
  from delete_flag_effect[OF c k dl e t] delete_flag_effect[OF c k dl e f] c k dl
  show ?thesis by simp
qed

subsection \<open>The whole run\<close>
















subsection \<open>The entry point\<close>

text \<open>
  C6. The code at two inputs that violate the precondition. When the source is a regular
  file, \<open>main\<close> reports it and then enters \<open>gather_files\<close>, whose directory
  listing raises. When the target is a regular file, \<open>main\<close> reports it, scans the
  source completely and enters \<open>gather_directories\<close>, whose listing raises. In both
  runs a scanner is entered after the report; the engine is not.
\<close>

theorem main_scans_after_reporting:
  "main str_lower ''notes.txt'' ''t'' File (Dir [(''x'', Dir [])]) False False False
       (\<lambda>S. []) [] demo_disk
     = (Failed NotADirectoryError,
        [SourceNotDirectory ''notes.txt'', Entered GatherFiles], demo_disk) \<and>
   main str_lower ''s'' ''t.txt'' (Dir [(''a.png'', File)]) File False False False
       (\<lambda>S. []) [] demo_disk
     = (Failed NotADirectoryError,
        [TargetNotDirectory ''t.txt'', Entered GatherFiles, Entered GatherDirectories],
        demo_disk)"
  by (simp add: main_def Let_def)

end
